theory Spec2Isabelle
  imports Main
begin

section \<open>Data model of midi\_to\_mida.py\<close>

text \<open>
  A message of a parsed MIDI track.  The source reads the attributes \<open>type\<close>, \<open>time\<close>,
  \<open>channel\<close>, \<open>note\<close> and \<open>velocity\<close>; only the types \<open>note_on\<close> and \<open>note_off\<close> are ever
  tested for, so every other message type is one constructor, which carries its delta time
  and its channel when it has one (\<open>hasattr(msg, 'channel')\<close>).
  Constructor arguments of the note messages: delta time, channel, note, velocity.
\<close>

datatype message =
    Note_on nat nat nat nat
  | Note_off nat nat nat nat
  | Other_msg nat "nat option"

fun msg_time :: "message \<Rightarrow> nat" where
  "msg_time (Note_on t c n v) = t"
| "msg_time (Note_off t c n v) = t"
| "msg_time (Other_msg t c) = t"

fun msg_channel :: "message \<Rightarrow> nat option" where
  "msg_channel (Note_on t c n v) = Some c"
| "msg_channel (Note_off t c n v) = Some c"
| "msg_channel (Other_msg t c) = c"

fun is_note_msg :: "message \<Rightarrow> bool" where
  "is_note_msg (Note_on t c n v) = True"
| "is_note_msg (Note_off t c n v) = True"
| "is_note_msg (Other_msg t c) = False"

type_synonym track = "message list"

text \<open>The parsed file: \<open>mid.tracks\<close> and \<open>mid.ticks_per_beat\<close>.\<close>

record midi_file =
  tracks :: "track list"
  ticks_per_beat :: int

text \<open>The exceptions the core can raise.\<close>

datatype error = ZeroDivisionError | IndexError

section \<open>String helpers\<close>

text \<open>\<open>sep.join(xs)\<close>.\<close>

fun join :: "string \<Rightarrow> string list \<Rightarrow> string" where
  "join sep [] = []"
| "join sep [x] = x"
| "join sep (x # y # ys) = x @ sep @ join sep (y # ys)"

text \<open>Decimal rendering of an integer, as an f-string does it.\<close>

fun nat_digits :: "nat \<Rightarrow> string" where
  "nat_digits n =
     (if n < 10 then [''0123456789'' ! n]
      else nat_digits (n div 10) @ [''0123456789'' ! (n mod 10)])"

declare nat_digits.simps [simp del]

definition int_str :: "int \<Rightarrow> string" where
  "int_str i = (if i < 0 then CHR ''-'' # nat_digits (nat (- i)) else nat_digits (nat i))"

text \<open>\<open>while tokens and tokens[-1] == tok: tokens.pop()\<close>.\<close>

definition trim_trailing :: "string \<Rightarrow> string list \<Rightarrow> string list" where
  "trim_trailing tok tokens = rev (dropWhile (\<lambda>t. t = tok) (rev tokens))"

section \<open>Leaf functions\<close>

fun is_drum_track :: "track \<Rightarrow> bool" where
  "is_drum_track [] = False"
| "is_drum_track (msg # rest) =
     (if is_note_msg msg \<and> msg_channel msg = Some 9 then True else is_drum_track rest)"

definition note_names :: "string list" where
  "note_names = [''C'', ''C#'', ''D'', ''D#'', ''E'', ''F'',
                 ''F#'', ''G'', ''G#'', ''A'', ''A#'', ''B'']"

definition midi_note_to_mida :: "nat \<Rightarrow> string" where
  "midi_note_to_mida note =
     (let octave = int (note div 12) - 1;
          name = note_names ! (note mod 12)
      in name @ int_str octave)"

definition quantize_ticks :: "int \<Rightarrow> bool \<Rightarrow> int" where
  "quantize_ticks tpb eighth = (if eighth then tpb div 2 else tpb)"

definition velocity_to_typeset :: "nat \<Rightarrow> string" where
  "velocity_to_typeset velocity =
     (if velocity \<ge> 110 then ''^|''
      else if velocity \<le> 40 then ''v|''
      else ''*|'')"

section \<open>Shared arithmetic of the two encoders\<close>

text \<open>
  \<open>max(e[0] for e in events)\<close>.  Both call sites evaluate it under an \<open>if events\<close> guard, whose
  other branch leaves the running value (initially 0) alone.
\<close>

definition max_tick :: "nat list \<Rightarrow> nat" where
  "max_tick ts = (case ts of [] \<Rightarrow> 0 | t # rest \<Rightarrow> fold max rest t)"

text \<open>
  \<open>((total_ticks + slot_ticks - 1) // slot_ticks) + 1\<close>: Python's floor division raises
  \<open>ZeroDivisionError\<close> on a zero divisor; on integers it agrees with \<open>div\<close> otherwise.
\<close>

definition slot_count_of :: "nat \<Rightarrow> int \<Rightarrow> error + int" where
  "slot_count_of total_ticks slot_ticks =
     (if slot_ticks = 0 then Inl ZeroDivisionError
      else Inr ((int total_ticks + slot_ticks - 1) div slot_ticks + 1))"

text \<open>
  Python list indexing: a negative index counts from the end, anything outside
  \<open>-len \<dots> len - 1\<close> raises \<open>IndexError\<close> (here \<open>None\<close>).
\<close>

definition py_index :: "int \<Rightarrow> nat \<Rightarrow> nat option" where
  "py_index i len =
     (if 0 \<le> i \<and> i < int len then Some (nat i)
      else if i < 0 \<and> - int len \<le> i then Some (nat (int len + i))
      else None)"

section \<open>extract\_drum\_audicles\<close>

text \<open>
  \<open>drum_events\<close> is a \<open>defaultdict(list)\<close> from note to the list of its
  \<open>(abs_time, velocity)\<close> hits.  A Python dictionary keeps its keys in insertion order, so it
  is an association list here: a new key goes to the end, a known key has its list extended.
\<close>

type_synonym drum_dict = "(nat \<times> (nat \<times> nat) list) list"

fun dict_append :: "nat \<Rightarrow> nat \<times> nat \<Rightarrow> drum_dict \<Rightarrow> drum_dict" where
  "dict_append k v [] = [(k, [v])]"
| "dict_append k v ((k', vs) # d) =
     (if k = k' then (k', vs @ [v]) # d else (k', vs) # dict_append k v d)"

text \<open>\<open>drum_events[note]\<close>; a \<open>defaultdict\<close> answers the empty list for a missing key.\<close>

definition dict_get :: "drum_dict \<Rightarrow> nat \<Rightarrow> (nat \<times> nat) list" where
  "dict_get d k = (case map_of d k of None \<Rightarrow> [] | Some vs \<Rightarrow> vs)"

text \<open>The inner loop of lines 36-40 over one track, \<open>abs_time\<close> threaded through.\<close>

fun collect_drum_track :: "track \<Rightarrow> nat \<Rightarrow> drum_dict \<Rightarrow> drum_dict" where
  "collect_drum_track [] abs_time d = d"
| "collect_drum_track (msg # rest) abs_time d =
     (let abs_time' = abs_time + msg_time msg
      in collect_drum_track rest abs_time'
           (case msg of
              Note_on t c n v \<Rightarrow>
                (if c = 9 \<and> v > 0 then dict_append n (abs_time', v) d else d)
            | _ \<Rightarrow> d))"

text \<open>The outer loop of line 35: every track starts again at \<open>abs_time = 0\<close>.\<close>

fun collect_drum_events :: "track list \<Rightarrow> drum_dict \<Rightarrow> drum_dict" where
  "collect_drum_events [] d = d"
| "collect_drum_events (track # rest) d =
     collect_drum_events rest (collect_drum_track track 0 d)"

text \<open>Lines 46-49.\<close>

fun drum_total_ticks :: "drum_dict \<Rightarrow> nat \<Rightarrow> nat" where
  "drum_total_ticks [] total_ticks = total_ticks"
| "drum_total_ticks ((note, events) # rest) total_ticks =
     drum_total_ticks rest
       (if events \<noteq> [] then max total_ticks (max_tick (map fst events)) else total_ticks)"

text \<open>Lines 56-58: \<open>timeline[slot].append(velocity)\<close> for each hit of one note.\<close>

fun place_hits :: "(nat \<times> nat) list \<Rightarrow> int \<Rightarrow> nat list list \<Rightarrow> error + nat list list" where
  "place_hits [] eighth_ticks timeline = Inr timeline"
| "place_hits ((abs_time, velocity) # rest) eighth_ticks timeline =
     (let slot = int abs_time div eighth_ticks
      in case py_index slot (length timeline) of
           None \<Rightarrow> Inl IndexError
         | Some i \<Rightarrow> place_hits rest eighth_ticks (timeline[i := timeline ! i @ [velocity]]))"

text \<open>Lines 62-69: the token of one slot.\<close>

definition drum_slot_token :: "nat list \<Rightarrow> string" where
  "drum_slot_token velocities =
     (if velocities = [] then ''_''
      else if length velocities = 1 then velocity_to_typeset (velocities ! 0)
      else ''{'' @ join '' '' (map velocity_to_typeset velocities) @ ''}'')"

text \<open>
  Lines 60-75: a timeline rendered as a line; \<open>None\<close> is the \<open>continue\<close> of an audicle that is
  empty after the trim.
\<close>

definition render_drum_timeline :: "nat list list \<Rightarrow> string option" where
  "render_drum_timeline timeline =
     (let tokens = trim_trailing ''_'' (map drum_slot_token timeline)
      in if tokens = [] then None else Some (''('' @ join '' '' tokens @ '')''))"

text \<open>The loop of lines 53-75 over the sorted notes, \<open>audicles\<close> as its accumulator.\<close>

fun drum_note_loop ::
  "nat list \<Rightarrow> drum_dict \<Rightarrow> int \<Rightarrow> int \<Rightarrow> string list \<Rightarrow> error + string list" where
  "drum_note_loop [] d eighth_ticks slot_count audicles = Inr audicles"
| "drum_note_loop (note # notes) d eighth_ticks slot_count audicles =
     (case place_hits (dict_get d note) eighth_ticks (replicate (nat slot_count) []) of
        Inl err \<Rightarrow> Inl err
      | Inr timeline \<Rightarrow>
          (case render_drum_timeline timeline of
             None \<Rightarrow> drum_note_loop notes d eighth_ticks slot_count audicles
           | Some a \<Rightarrow> drum_note_loop notes d eighth_ticks slot_count (audicles @ [a])))"

text \<open>Lines 41-76, from the pooled dictionary on; \<open>sorted(drum_events)\<close> sorts the keys.\<close>

definition render_drum_events :: "drum_dict \<Rightarrow> int \<Rightarrow> error + string list" where
  "render_drum_events drum_events tpb =
     (if drum_events = [] then Inr []
      else
        let eighth_ticks = quantize_ticks tpb True;
            total_ticks = drum_total_ticks drum_events 0
        in case slot_count_of total_ticks eighth_ticks of
             Inl err \<Rightarrow> Inl err
           | Inr slot_count \<Rightarrow>
               drum_note_loop (sort (map fst drum_events)) drum_events eighth_ticks slot_count [])"

definition extract_drum_audicles :: "midi_file \<Rightarrow> int \<Rightarrow> error + string list" where
  "extract_drum_audicles mid tpb =
     render_drum_events (collect_drum_events (tracks mid) []) tpb"

section \<open>track\_to\_audicle\<close>

datatype evtype = On | Off

type_synonym event = "nat \<times> nat \<times> evtype"

text \<open>Lines 82-87.\<close>

fun collect_events :: "track \<Rightarrow> nat \<Rightarrow> event list" where
  "collect_events [] abs_time = []"
| "collect_events (msg # rest) abs_time =
     (let abs_time' = abs_time + msg_time msg
      in (case msg of
            Note_on t c n v \<Rightarrow>
              (if v > 0 then [(abs_time', n, On)] else [(abs_time', n, Off)])
          | Note_off t c n v \<Rightarrow> [(abs_time', n, Off)]
          | Other_msg t c \<Rightarrow> [])
         @ collect_events rest abs_time')"

text \<open>Lines 100-103: one event applied to \<open>active_notes\<close>.\<close>

fun apply_event :: "event \<Rightarrow> nat set \<Rightarrow> nat set" where
  "apply_event (tick, note, On) active_notes = insert note active_notes"
| "apply_event (tick, note, Off) active_notes = active_notes - {note}"

text \<open>
  The \<open>while\<close> loop of lines 98-104; the events from \<open>event_idx\<close> on are the list that is left.
\<close>

fun consume :: "int \<Rightarrow> event list \<Rightarrow> nat set \<Rightarrow> event list \<times> nat set" where
  "consume slot_end [] active_notes = ([], active_notes)"
| "consume slot_end (ev # evs) active_notes =
     (if int (fst ev) < slot_end then consume slot_end evs (apply_event ev active_notes)
      else (ev # evs, active_notes))"

text \<open>The \<open>for slot in range(slot_count)\<close> loop of lines 95-105.\<close>

fun sweep :: "int \<Rightarrow> nat list \<Rightarrow> event list \<Rightarrow> nat set \<Rightarrow> nat set list" where
  "sweep sixteenth_ticks [] evs active_notes = []"
| "sweep sixteenth_ticks (slot # slots) evs active_notes =
     (let slot_start = int slot * sixteenth_ticks;
          slot_end = slot_start + sixteenth_ticks;
          (evs', active_notes') = consume slot_end evs active_notes
      in active_notes' # sweep sixteenth_ticks slots evs' active_notes')"

text \<open>Lines 108-118.\<close>

fun melodic_tokens :: "nat set \<Rightarrow> nat set list \<Rightarrow> string list" where
  "melodic_tokens prev_notes [] = []"
| "melodic_tokens prev_notes (notes # rest) =
     (if notes = {} then ''.''
      else
        let notes_sorted = sorted_list_of_set notes;
            token = join ''~'' (map midi_note_to_mida notes_sorted)
        in if notes = prev_notes \<and> notes \<noteq> {} then ''-'' else token)
     # melodic_tokens notes rest"

text \<open>Lines 106-123: a timeline rendered as a line, or \<open>None\<close>.\<close>

definition render_melodic_timeline :: "nat set list \<Rightarrow> string option" where
  "render_melodic_timeline timeline =
     (let mida_tokens = trim_trailing ''.'' (melodic_tokens {} timeline)
      in if mida_tokens = [] then None else Some (''*'' @ join '' '' mida_tokens @ ''*''))"

definition track_to_audicle :: "track \<Rightarrow> int \<Rightarrow> error + string option" where
  "track_to_audicle track tpb =
     (let events = collect_events track 0;
          sixteenth_ticks = tpb div 4
      in if events = [] then Inr None
         else
           let total_ticks = max_tick (map fst events)
           in case slot_count_of total_ticks sixteenth_ticks of
                Inl err \<Rightarrow> Inl err
              | Inr slot_count \<Rightarrow>
                  Inr (render_melodic_timeline
                         (sweep sixteenth_ticks [0 ..< nat slot_count] events {})))"

section \<open>The document (lines 142-169 of main)\<close>

text \<open>
  The loop of lines 145-154.  The channel set of lines 146-149 is never read and is left
  out.  \<open>if audicle:\<close> is false for \<open>None\<close> and for the empty string.
\<close>

fun melodic_audicles :: "track list \<Rightarrow> int \<Rightarrow> string list \<Rightarrow> error + string list" where
  "melodic_audicles [] tpb audicles = Inr audicles"
| "melodic_audicles (track # rest) tpb audicles =
     (if is_drum_track track then melodic_audicles rest tpb audicles
      else case track_to_audicle track tpb of
             Inl err \<Rightarrow> Inl err
           | Inr None \<Rightarrow> melodic_audicles rest tpb audicles
           | Inr (Some audicle) \<Rightarrow>
               (if audicle \<noteq> [] then melodic_audicles rest tpb (audicles @ [audicle])
                else melodic_audicles rest tpb audicles))"

text \<open>
  The marker lines.  The quote marker is the one character U+2018; strings are byte lists
  here, so it is its three UTF-8 bytes.
\<close>

definition header_marker :: string where
  "header_marker = [CHR 0x60, CHR ''~'', CHR ''#'']"

definition quote_marker :: string where
  "quote_marker = [CHR 0xE2, CHR 0x80, CHR 0x98]"

definition newline :: string where
  "newline = [CHR 0x0A]"

text \<open>\<open>xs[0]\<close> and \<open>xs.insert(i, x)\<close>.\<close>

definition first :: "'a list \<Rightarrow> error + 'a" where
  "first xs = (case xs of [] \<Rightarrow> Inl IndexError | x # _ \<Rightarrow> Inr x)"

definition list_insert :: "nat \<Rightarrow> 'a \<Rightarrow> 'a list \<Rightarrow> 'a list" where
  "list_insert i x xs = take i xs @ [x] @ drop i xs"

text \<open>Lines 156-169.\<close>

definition assemble :: "string list \<Rightarrow> string list \<Rightarrow> error + string" where
  "assemble drum_audicles audicles =
     (let output = (if drum_audicles \<noteq> [] then [] @ drum_audicles else [])
      in if audicles = [] \<and> drum_audicles = [] then
           Inr (join newline (output @ [''// No tracks found.'']))
         else if length audicles + length drum_audicles = 1 then
           (case (if audicles \<noteq> [] then first audicles else first drum_audicles) of
              Inl err \<Rightarrow> Inl err
            | Inr line \<Rightarrow> Inr (join newline (output @ [line])))
         else
           Inr (join newline
                  (list_insert 1 quote_marker (list_insert 0 header_marker output)
                   @ audicles @ [quote_marker])))"

definition main_document :: "midi_file \<Rightarrow> error + string" where
  "main_document mid =
     (let tpb = ticks_per_beat mid
      in case extract_drum_audicles mid tpb of
           Inl err \<Rightarrow> Inl err
         | Inr drum_audicles \<Rightarrow>
             (case melodic_audicles (tracks mid) tpb [] of
                Inl err \<Rightarrow> Inl err
              | Inr audicles \<Rightarrow> assemble drum_audicles audicles))"

section \<open>Notions used to state and prove the claims\<close>

text \<open>
  The audicle of one pitch of the pooled dictionary, and of one track: what the loops of
  \<open>extract_drum_audicles\<close> and of \<open>main\<close> append for it, \<open>None\<close> when they append nothing.
\<close>

definition drum_line :: "drum_dict \<Rightarrow> int \<Rightarrow> nat \<Rightarrow> string option" where
  "drum_line d tpb note =
     (case slot_count_of (drum_total_ticks d 0) (quantize_ticks tpb True) of
        Inl err \<Rightarrow> None
      | Inr slot_count \<Rightarrow>
          (case place_hits (dict_get d note) (quantize_ticks tpb True)
                  (replicate (nat slot_count) []) of
             Inl err \<Rightarrow> None
           | Inr timeline \<Rightarrow> render_drum_timeline timeline))"

definition melodic_line :: "int \<Rightarrow> track \<Rightarrow> string option" where
  "melodic_line tpb track =
     (case track_to_audicle track tpb of
        Inr (Some a) \<Rightarrow> (if a \<noteq> [] then Some a else None)
      | _ \<Rightarrow> None)"

text \<open>
  Two event lists that are equal, or differ in one place by the exchange of the two
  neighbours \<open>a\<close> and \<open>b\<close>.
\<close>

definition swapped :: "event \<Rightarrow> event \<Rightarrow> event list \<Rightarrow> event list \<Rightarrow> bool" where
  "swapped a b xs ys \<longleftrightarrow>
     xs = ys \<or> (\<exists>pre post. xs = pre @ [a, b] @ post \<and> ys = pre @ [b, a] @ post)"

section \<open>Lemmas\<close>

subsection \<open>loops as map-filters\<close>

lemma drum_note_loop_Inr:
  "drum_note_loop ns d e sc acc = Inr r \<Longrightarrow>
   r = acc @ List.map_filter
         (\<lambda>n. case place_hits (dict_get d n) e (replicate (nat sc) []) of
                 Inl err \<Rightarrow> None | Inr timeline \<Rightarrow> render_drum_timeline timeline) ns"
proof (induction ns arbitrary: acc)
  case Nil
  then show ?case by simp
next
  case (Cons n ns)
  show ?case
  proof (cases "place_hits (dict_get d n) e (replicate (nat sc) [])")
    case (Inl err)
    with Cons.prems show ?thesis by simp
  next
    case (Inr timeline)
    show ?thesis
    proof (cases "render_drum_timeline timeline")
      case None
      with Inr Cons.prems Cons.IH [of acc] show ?thesis by simp
    next
      case (Some a)
      with Inr Cons.prems Cons.IH [of "acc @ [a]"] show ?thesis by simp
    qed
  qed
qed

lemma melodic_audicles_Inr:
  "melodic_audicles trs tpb acc = Inr r \<Longrightarrow>
   r = acc @ List.map_filter (melodic_line tpb) (filter (\<lambda>tr. \<not> is_drum_track tr) trs)"
proof (induction trs arbitrary: acc)
  case Nil
  then show ?case by simp
next
  case (Cons tr trs)
  show ?case
  proof (cases "is_drum_track tr")
    case True
    with Cons.prems Cons.IH [of acc] show ?thesis by simp
  next
    case False
    show ?thesis
    proof (cases "melodic_line tpb tr")
      case None
      with False Cons.prems have "melodic_audicles trs tpb acc = Inr r"
        by (auto simp: melodic_line_def split: sum.splits option.splits if_splits)
      with Cons.IH [of acc] None False show ?thesis by simp
    next
      case (Some a)
      with False Cons.prems have "melodic_audicles trs tpb (acc @ [a]) = Inr r"
        by (auto simp: melodic_line_def split: sum.splits option.splits if_splits)
      with Cons.IH [of "acc @ [a]"] Some False show ?thesis by simp
    qed
  qed
qed

lemma render_drum_events_Inr:
  assumes "render_drum_events d tpb = Inr ds"
  shows "ds = List.map_filter (drum_line d tpb) (sort (map fst d))"
proof (cases "d = []")
  case True
  with assms show ?thesis by (simp add: render_drum_events_def)
next
  case False
  with assms obtain sc where
    sc: "slot_count_of (drum_total_ticks d 0) (quantize_ticks tpb True) = Inr sc" and
    loop: "drum_note_loop (sort (map fst d)) d (quantize_ticks tpb True) sc [] = Inr ds"
    by (auto simp: render_drum_events_def Let_def split: sum.splits)
  from drum_note_loop_Inr [OF loop] sc show ?thesis
    by (simp add: drum_line_def [abs_def])
qed

subsection \<open>keys of the pooled dictionary\<close>

lemma map_fst_dict_append:
  "map fst (dict_append k v d) =
     (if k \<in> set (map fst d) then map fst d else map fst d @ [k])"
  by (induction d) (auto simp: rev_image_eqI)

lemma keys_dict_append: "fst ` set (dict_append k v d) = insert k (fst ` set d)"
  using map_fst_dict_append [of k v d, THEN arg_cong, of set] by auto

lemma distinct_dict_append:
  "distinct (map fst d) \<Longrightarrow> distinct (map fst (dict_append k v d))"
  by (simp add: map_fst_dict_append)

lemma distinct_collect_drum_track:
  "distinct (map fst d) \<Longrightarrow> distinct (map fst (collect_drum_track tr t d))"
  by (induction tr arbitrary: t d) (auto simp: Let_def distinct_dict_append split: message.splits)

lemma distinct_collect_drum_events:
  "distinct (map fst d) \<Longrightarrow> distinct (map fst (collect_drum_events trs d))"
  by (induction trs arbitrary: d) (simp_all add: distinct_collect_drum_track)

lemma keys_collect_drum_track:
  "fst ` set (collect_drum_track tr t d) =
     fst ` set d \<union> {n. \<exists>dt v. Note_on dt 9 n v \<in> set tr \<and> 0 < v}"
proof (induction tr arbitrary: t d)
  case Nil
  then show ?case by simp
next
  case (Cons msg tr)
  show ?case
    by (cases msg) (auto simp: Cons.IH Let_def keys_dict_append)
qed

lemma keys_collect_drum_events:
  "fst ` set (collect_drum_events trs d) =
     fst ` set d \<union> {n. \<exists>tr \<in> set trs. \<exists>dt v. Note_on dt 9 n v \<in> set tr \<and> 0 < v}"
proof (induction trs arbitrary: d)
  case Nil
  then show ?case by simp
next
  case (Cons tr trs)
  show ?case
    by (auto simp: Cons.IH keys_collect_drum_track)
qed

lemma sort_keys:
  "distinct (map fst d) \<Longrightarrow> sort (map fst d) = sorted_list_of_set (fst ` set d)"
  using sorted_list_of_set_sort_remdups [of "map fst d"] by (simp add: distinct_remdups_id)

subsection \<open>assemble\<close>

lemma assemble_envelope:
  "2 \<le> length ds + length ms \<Longrightarrow>
   assemble ds ms = Inr (join newline ([header_marker, quote_marker] @ ds @ ms @ [quote_marker]))"
  by (cases ds; cases ms) (auto simp: assemble_def list_insert_def Let_def)

lemma assemble_total: "\<exists>doc. assemble ds ms = Inr doc"
  by (cases ds; cases ms) (auto simp: assemble_def first_def Let_def)

subsection \<open>totality\<close>

lemma max_tick_ge: "t \<in> set ts \<Longrightarrow> t \<le> max_tick ts"
proof (cases ts)
  case Nil
  assume "t \<in> set ts"
  with Nil show ?thesis by simp
next
  case (Cons x xs)
  assume "t \<in> set ts"
  with Cons show ?thesis
    using Max.set_eq_fold [of x xs] Max_ge [of "set (x # xs)" t]
    by (simp add: max_tick_def)
qed

lemma drum_total_ticks_ge_acc: "acc \<le> drum_total_ticks d acc"
proof (induction d arbitrary: acc)
  case Nil
  then show ?case by simp
next
  case (Cons p d)
  obtain n evs where p: "p = (n, evs)" by (cases p)
  show ?case
    using Cons.IH [of "max acc (max_tick (map fst evs))"] Cons.IH [of acc]
    by (simp add: p)
qed

lemma drum_total_ticks_ge:
  "(n, evs) \<in> set d \<Longrightarrow> (t, v) \<in> set evs \<Longrightarrow> t \<le> drum_total_ticks d acc"
proof (induction d arbitrary: acc)
  case Nil
  then show ?case by simp
next
  case (Cons p d)
  obtain n' evs' where p: "p = (n', evs')" by (cases p)
  show ?case
  proof (cases "(n, evs) = p")
    case True
    with p have e: "evs' = evs" by simp
    from Cons.prems(2) have ne: "evs \<noteq> []" by auto
    from Cons.prems(2) have "t \<in> set (map fst evs)" by force
    then have "t \<le> max_tick (map fst evs)" by (rule max_tick_ge)
    then have "t \<le> max acc (max_tick (map fst evs))" by simp
    also have "\<dots> \<le> drum_total_ticks d (max acc (max_tick (map fst evs)))"
      by (rule drum_total_ticks_ge_acc)
    finally show ?thesis using ne by (simp add: p e)
  next
    case False
    with Cons.prems have "(n, evs) \<in> set d" by simp
    from Cons.IH [OF this Cons.prems(2)] show ?thesis by (simp add: p)
  qed
qed

lemma dict_get_ge:
  "(t, v) \<in> set (dict_get d n) \<Longrightarrow> t \<le> drum_total_ticks d 0"
proof -
  assume a: "(t, v) \<in> set (dict_get d n)"
  show ?thesis
  proof (cases "map_of d n")
    case None
    with a show ?thesis by (simp add: dict_get_def)
  next
    case (Some evs)
    then have "(n, evs) \<in> set d" by (rule map_of_SomeD)
    moreover from a Some have "(t, v) \<in> set evs" by (simp add: dict_get_def)
    ultimately show ?thesis by (rule drum_total_ticks_ge)
  qed
qed

lemma place_hits_total:
  "0 < e \<Longrightarrow> \<forall>(t, v) \<in> set evs. int t div e < int (length tml) \<Longrightarrow>
   \<exists>tml'. place_hits evs e tml = Inr tml'"
proof (induction evs arbitrary: tml)
  case Nil
  then show ?case by simp
next
  case (Cons ev evs)
  obtain t v where ev: "ev = (t, v)" by (cases ev)
  from Cons.prems have lt: "int t div e < int (length tml)" by (simp add: ev)
  from Cons.prems(1) have "0 \<le> int t div e" by (simp add: pos_imp_zdiv_nonneg_iff)
  with lt have idx: "py_index (int t div e) (length tml) = Some (nat (int t div e))"
    by (simp add: py_index_def)
  have "\<forall>(t, v) \<in> set evs. int t div e
          < int (length (tml[nat (int t div e) := tml ! nat (int t div e) @ [v]]))"
    using Cons.prems(2) by simp
  from Cons.IH [OF Cons.prems(1), of "tml[nat (int t div e) := tml ! nat (int t div e) @ [v]]"]
    Cons.prems(2)
  show ?case by (simp add: ev idx Let_def)
qed

lemma slot_in_range:
  assumes "0 < e" "t \<le> m"
  shows "int t div e < int (nat ((int m + e - 1) div e + 1))"
proof -
  have "int t div e \<le> int m div e"
    using assms by (simp add: zdiv_mono1)
  also have "\<dots> \<le> (int m + e - 1) div e"
    using assms by (simp add: zdiv_mono1)
  finally have "int t div e < (int m + e - 1) div e + 1" by simp
  moreover have "0 \<le> (int m + e - 1) div e"
    using assms by (simp add: pos_imp_zdiv_nonneg_iff)
  ultimately show ?thesis by simp
qed

lemma drum_note_loop_total:
  assumes "0 < e"
  shows "\<exists>r. drum_note_loop ns d e ((int (drum_total_ticks d 0) + e - 1) div e + 1) acc = Inr r"
proof (induction ns arbitrary: acc)
  case Nil
  then show ?case by simp
next
  case (Cons n ns)
  let ?sc = "(int (drum_total_ticks d 0) + e - 1) div e + 1"
  have "\<forall>(t, v) \<in> set (dict_get d n). int t div e < int (length (replicate (nat ?sc) ([]::nat list)))"
  proof (clarify)
    fix t v
    assume "(t, v) \<in> set (dict_get d n)"
    then have "t \<le> drum_total_ticks d 0" by (rule dict_get_ge)
    from slot_in_range [OF assms this]
    show "int t div e < int (length (replicate (nat ?sc) ([]::nat list)))" by simp
  qed
  from place_hits_total [OF assms this] obtain tml where
    tml: "place_hits (dict_get d n) e (replicate (nat ?sc) []) = Inr tml" by blast
  show ?case
  proof (cases "render_drum_timeline tml")
    case None
    with tml Cons.IH [of acc] show ?thesis by simp
  next
    case (Some a)
    with tml Cons.IH [of "acc @ [a]"] show ?thesis by simp
  qed
qed

lemma render_drum_events_total:
  "0 < quantize_ticks tpb True \<Longrightarrow> \<exists>ds. render_drum_events d tpb = Inr ds"
  using drum_note_loop_total [of "quantize_ticks tpb True" "sort (map fst d)" d "[]"]
  by (auto simp: render_drum_events_def slot_count_of_def Let_def)

lemma track_to_audicle_total:
  "tpb div 4 \<noteq> 0 \<Longrightarrow> \<exists>r. track_to_audicle track tpb = Inr r"
  by (simp add: track_to_audicle_def slot_count_of_def Let_def)

lemma melodic_audicles_total:
  "tpb div 4 \<noteq> 0 \<Longrightarrow> \<exists>r. melodic_audicles trs tpb acc = Inr r"
proof (induction trs arbitrary: acc)
  case Nil
  then show ?case by simp
next
  case (Cons tr trs)
  from track_to_audicle_total [OF Cons.prems, of tr] obtain a where
    a: "track_to_audicle tr tpb = Inr a" by blast
  show ?case
    using Cons.IH [OF Cons.prems] a
    by (cases a) auto
qed

lemma main_document_total:
  assumes "4 \<le> ticks_per_beat mid"
  shows "\<exists>doc. main_document mid = Inr doc"
proof -
  let ?tpb = "ticks_per_beat mid"
  from assms have "0 < quantize_ticks ?tpb True" by (simp add: quantize_ticks_def)
  then obtain ds where ds: "extract_drum_audicles mid ?tpb = Inr ds"
    using render_drum_events_total by (auto simp: extract_drum_audicles_def)
  from assms have "?tpb div 4 \<noteq> 0" by simp
  then obtain ms where ms: "melodic_audicles (tracks mid) ?tpb [] = Inr ms"
    using melodic_audicles_total by blast
  from ds ms assemble_total [of ds ms] show ?thesis
    by (simp add: main_document_def)
qed

subsection \<open>trimming\<close>

lemma dropWhile_replicate_append:
  "dropWhile (\<lambda>t. t = tok) (replicate k tok @ ys) = dropWhile (\<lambda>t. t = tok) ys"
  by (induction k) simp_all

lemma trim_trailing_append_replicate:
  "trim_trailing tok (xs @ replicate k tok) = trim_trailing tok xs"
  by (simp add: trim_trailing_def dropWhile_replicate_append)

lemma trim_trailing_replicate: "trim_trailing tok (replicate k tok) = []"
  using trim_trailing_append_replicate [of tok "[]" k] by (simp add: trim_trailing_def)









lemma consume_no_events: "consume slot_end [] active = ([], active)"
  by simp


lemma finite_apply_event: "finite active \<Longrightarrow> finite (apply_event ev active)"
proof -
  assume f: "finite active"
  obtain t n k where ev: "ev = (t, n, k)" by (cases ev)
  from f show ?thesis by (cases k) (simp_all add: ev)
qed

lemma finite_consume: "finite active \<Longrightarrow> finite (snd (consume slot_end evs active))"
  by (induction evs arbitrary: active) (simp_all add: finite_apply_event)

lemma finite_sweep:
  "finite active \<Longrightarrow> held \<in> set (sweep s slots evs active) \<Longrightarrow> finite held"
proof (induction slots arbitrary: evs active)
  case Nil
  then show ?case by simp
next
  case (Cons i slots)
  let ?c = "consume (int i * s + s) evs active"
  from Cons.prems(1) have f: "finite (snd ?c)" by (rule finite_consume)
  from Cons.prems(2) have "held = snd ?c \<or> held \<in> set (sweep s slots (fst ?c) (snd ?c))"
    by (simp add: Let_def split_beta)
  with f Cons.IH [OF f] show ?case by blast
qed

subsection \<open>same-tick events of different pitches commute\<close>

lemma apply_event_commute:
  "fst (snd a) \<noteq> fst (snd b) \<Longrightarrow>
   apply_event a (apply_event b act) = apply_event b (apply_event a act)"
proof -
  assume ne: "fst (snd a) \<noteq> fst (snd b)"
  obtain ta na ka where a: "a = (ta, na, ka)" by (cases a)
  obtain tb nb kb where b: "b = (tb, nb, kb)" by (cases b)
  from ne show ?thesis
    by (cases ka; cases kb) (auto simp: a b)
qed

lemma consume_swapped:
  assumes "fst a = fst b" "fst (snd a) \<noteq> fst (snd b)"
  shows "swapped a b xs ys \<Longrightarrow>
         snd (consume se xs act) = snd (consume se ys act)
         \<and> swapped a b (fst (consume se xs act)) (fst (consume se ys act))"
proof -
  have key: "snd (consume se (pre @ [a, b] @ post) act) = snd (consume se (pre @ [b, a] @ post) act)
         \<and> swapped a b (fst (consume se (pre @ [a, b] @ post) act))
                        (fst (consume se (pre @ [b, a] @ post) act))" for pre post act
  proof (induction pre arbitrary: act)
    case Nil
    show ?case
    proof (cases "int (fst a) < se")
      case True
      with assms show ?thesis
        by (simp add: apply_event_commute [of a b] swapped_def)
    next
      case False
      with assms have "swapped a b ([] @ [a, b] @ post) ([] @ [b, a] @ post)"
        unfolding swapped_def by blast
      with False assms show ?thesis by simp
    qed
  next
    case (Cons ev pre)
    show ?case
    proof (cases "int (fst ev) < se")
      case True
      with Cons.IH [of "apply_event ev act"] show ?thesis by simp
    next
      case False
      have "swapped a b ((ev # pre) @ [a, b] @ post) ((ev # pre) @ [b, a] @ post)"
        unfolding swapped_def by blast
      with False show ?thesis by simp
    qed
  qed
  assume "swapped a b xs ys"
  then show ?thesis
    using key by (auto simp: swapped_def)
qed

lemma sweep_swapped:
  assumes "fst a = fst b" "fst (snd a) \<noteq> fst (snd b)"
  shows "swapped a b xs ys \<Longrightarrow> sweep s slots xs act = sweep s slots ys act"
proof (induction slots arbitrary: xs ys act)
  case Nil
  then show ?case by simp
next
  case (Cons slot slots)
  let ?se = "int slot * s + s"
  from consume_swapped [OF assms Cons.prems, of ?se act]
  have act: "snd (consume ?se xs act) = snd (consume ?se ys act)"
    and sw: "swapped a b (fst (consume ?se xs act)) (fst (consume ?se ys act))"
    by simp_all
  from Cons.IH [OF sw, of "snd (consume ?se xs act)"] act
  show ?case by (simp add: Let_def split_beta)
qed

lemma collect_events_append:
  "collect_events (xs @ ys) t = collect_events xs t @ collect_events ys (t + sum_list (map msg_time xs))"
  by (induction xs arbitrary: t) (simp_all add: Let_def add.assoc)

lemma track_to_audicle_swapped:
  assumes "map fst evs1 = map fst evs2"
    and "collect_events tr1 0 = evs1" "collect_events tr2 0 = evs2"
    and "fst a = fst b" "fst (snd a) \<noteq> fst (snd b)" "swapped a b evs1 evs2"
  shows "track_to_audicle tr1 tpb = track_to_audicle tr2 tpb"
proof -
  from assms(1) have "evs1 = [] \<longleftrightarrow> evs2 = []" by (metis map_is_Nil_conv)
  with assms(1-3) sweep_swapped [OF assms(4,5,6)] show ?thesis
    by (simp add: track_to_audicle_def Let_def split: sum.splits)
qed

lemma swap_release_attack:
  assumes "na \<noteq> nb"
    and "rel = Note_off dt c1 na v1 \<and> rel' = Note_off 0 c1 na v1
         \<or> rel = Note_on dt c1 na 0 \<and> rel' = Note_on 0 c1 na 0"
  shows "track_to_audicle (pre @ [rel, Note_on 0 c2 nb v2] @ post) tpb
       = track_to_audicle (pre @ [Note_on dt c2 nb v2, rel'] @ post) tpb"
proof -
  let ?T = "sum_list (map msg_time pre) + dt"
  let ?a = "(?T, na, Off)"
  let ?b = "(?T, nb, if 0 < v2 then On else Off)"
  let ?E1 = "collect_events pre 0"
  let ?E2 = "collect_events post ?T"
  from assms(2) have e1: "collect_events (pre @ [rel, Note_on 0 c2 nb v2] @ post) 0
      = ?E1 @ [?a, ?b] @ ?E2"
    by (auto simp: collect_events_append Let_def)
  from assms(2) have e2: "collect_events (pre @ [Note_on dt c2 nb v2, rel'] @ post) 0
      = ?E1 @ [?b, ?a] @ ?E2"
    by (auto simp: collect_events_append Let_def)
  have sw: "swapped ?a ?b (?E1 @ [?a, ?b] @ ?E2) (?E1 @ [?b, ?a] @ ?E2)"
    unfolding swapped_def by blast
  show ?thesis
    by (rule track_to_audicle_swapped [OF _ e1 e2 _ _ sw]) (use assms(1) in simp_all)
qed

subsection \<open>the percussion lines and the order of insertion\<close>

lemma drum_total_ticks_Max:
  "drum_total_ticks d acc = Max (insert acc ((\<lambda>p. max_tick (map fst (snd p))) ` set d))"
proof (induction d arbitrary: acc)
  case Nil
  then show ?case by simp
next
  case (Cons p d)
  obtain n evs where p: "p = (n, evs)" by (cases p)
  let ?g = "\<lambda>p. max_tick (map fst (snd p))"
  have step: "(if evs \<noteq> [] then max acc (max_tick (map fst evs)) else acc)
                = max acc (max_tick (map fst evs))"
    by (simp add: max_tick_def)
  have "Max (insert (max acc (?g p)) (?g ` set d)) = Max (insert acc (insert (?g p) (?g ` set d)))"
  proof (cases "set d = {}")
    case True
    then show ?thesis by (simp add: max.commute)
  next
    case False
    then show ?thesis by (simp add: max.assoc)
  qed
  with Cons.IH [of "max acc (max_tick (map fst evs))"] step show ?case
    by (simp add: p)
qed

lemma dict_same_map:
  assumes "distinct (map fst d1)" "distinct (map fst d2)" "map_of d1 = map_of d2"
  shows "set d1 = set d2"
  using assms by (simp add: map_of_inject_set)

lemma dict_get_cong: "map_of d1 = map_of d2 \<Longrightarrow> dict_get d1 n = dict_get d2 n"
  by (simp add: dict_get_def)

lemma drum_note_loop_cong:
  "map_of d1 = map_of d2 \<Longrightarrow>
   drum_note_loop ns d1 e sc acc = drum_note_loop ns d2 e sc acc"
proof (induction ns arbitrary: acc)
  case Nil
  then show ?case by simp
next
  case (Cons n ns)
  then show ?case
    by (simp add: dict_get_cong [OF Cons.prems] split: sum.splits option.splits)
qed

lemma render_drum_events_order_independent:
  assumes "distinct (map fst d1)" "distinct (map fst d2)" "map_of d1 = map_of d2"
  shows "render_drum_events d1 tpb = render_drum_events d2 tpb"
proof -
  from dict_same_map [OF assms] have s: "set d1 = set d2" .
  then have nil: "d1 = [] \<longleftrightarrow> d2 = []" by (metis set_empty)
  from s have tot: "drum_total_ticks d1 0 = drum_total_ticks d2 0"
    by (simp add: drum_total_ticks_Max)
  from s assms(1,2) have keys: "sort (map fst d1) = sort (map fst d2)"
    by (simp add: sort_keys)
  show ?thesis
    using nil tot keys drum_note_loop_cong [OF assms(3)]
    by (simp add: render_drum_events_def Let_def split: sum.splits)
qed

subsection \<open>single lines and token positions\<close>

lemma assemble_single_drum: "assemble [d] [] = Inr (d @ newline @ d)"
  by (simp add: assemble_def first_def)

lemma length_melodic_tokens: "length (melodic_tokens prev timeline) = length timeline"
  by (induction timeline arbitrary: prev) simp_all

lemma melodic_tokens_nth:
  "i < length timeline \<Longrightarrow>
   melodic_tokens prev timeline ! i =
     (let notes = timeline ! i;
          before = (if i = 0 then prev else timeline ! (i - 1))
      in if notes = {} then ''.''
         else if notes = before then ''-''
         else join ''~'' (map midi_note_to_mida (sorted_list_of_set notes)))"
proof (induction timeline arbitrary: prev i)
  case Nil
  then show ?case by simp
next
  case (Cons slot rest)
  show ?case
  proof (cases i)
    case 0
    then show ?thesis by (simp add: Let_def)
  next
    case (Suc j)
    with Cons.prems have "j < length rest" by simp
    from Cons.IH [OF this, of slot] Suc show ?thesis
      by (cases j) (simp_all add: Let_def)
  qed
qed

section \<open>The claims\<close>

text \<open>
  C1.  When exactly one audicle survives overall and it is a drum audicle, the document is
  that drum line twice, joined by a newline; for the single percussion attack of pitch 38
  and velocity 80 with no melodic track under resolution 480 it is the two lines \<open>(*|)\<close>
  and \<open>(*|)\<close>.
\<close>

theorem single_drum_audicle_duplicated:
  "(extract_drum_audicles mid (ticks_per_beat mid) = Inr [d]
      \<and> melodic_audicles (tracks mid) (ticks_per_beat mid) [] = Inr []
    \<longrightarrow> main_document mid = Inr (d @ newline @ d))
   \<and> main_document \<lparr>tracks = [[Note_on 0 9 38 80]], ticks_per_beat = 480\<rparr>
       = Inr (''(*|)'' @ newline @ ''(*|)'')"
proof (intro conjI impI)
  assume "extract_drum_audicles mid (ticks_per_beat mid) = Inr [d]
      \<and> melodic_audicles (tracks mid) (ticks_per_beat mid) [] = Inr []"
  then show "main_document mid = Inr (d @ newline @ d)"
    by (simp add: main_document_def assemble_single_drum)
next
  show "main_document \<lparr>tracks = [[Note_on 0 9 38 80]], ticks_per_beat = 480\<rparr>
       = Inr (''(*|)'' @ newline @ ''(*|)'')"
    by code_simp
qed

theorem single_drum_audicle_duplicated_witness:
  "extract_drum_audicles \<lparr>tracks = [[Note_on 0 9 38 80]], ticks_per_beat = 480\<rparr> 480
     = Inr [''(*|)'']
   \<and> melodic_audicles [[Note_on 0 9 38 80]] 480 [] = Inr []
   \<and> main_document \<lparr>tracks = [[Note_on 0 9 38 80]], ticks_per_beat = 480\<rparr>
       = Inr [CHR ''('', CHR ''*'', CHR ''|'', CHR '')'', CHR 0x0A,
              CHR ''('', CHR ''*'', CHR ''|'', CHR '')'']"
proof -
  have h1: "extract_drum_audicles \<lparr>tracks = [[Note_on 0 9 38 80]], ticks_per_beat = 480\<rparr> 480
     = Inr [''(*|)'']"
    by code_simp
  have h2: "melodic_audicles [[Note_on 0 9 38 80]] 480 [] = Inr []"
    by code_simp
  show ?thesis
    using single_drum_audicle_duplicated
      [of "\<lparr>tracks = [[Note_on 0 9 38 80]], ticks_per_beat = 480\<rparr>" "''(*|)''"] h1 h2
    by (simp add: newline_def)
qed

text \<open>
  C2 (as amended).  \<open>is_drum_track\<close> returns true if and only if some \<open>note_on\<close> or
  \<open>note_off\<close> message of the track carries channel 9; the test of line 9 lets no other
  message type count.
\<close>

theorem is_drum_track_iff_note_on_channel_9:
  "is_drum_track track \<longleftrightarrow>
     (\<exists>msg \<in> set track. is_note_msg msg \<and> msg_channel msg = Some 9)"
  by (induction track) auto

theorem is_drum_track_iff_note_on_channel_9_witness:
  "is_drum_track [Other_msg 0 (Some 9), Note_off 5 9 40 0]
   \<and> is_note_msg (Note_off 5 9 40 0) \<and> msg_channel (Note_off 5 9 40 0) = Some 9"
  using is_drum_track_iff_note_on_channel_9 [of "[Other_msg 0 (Some 9), Note_off 5 9 40 0]"]
  by simp

text \<open>
  The claim as first stated fails: a track whose only message on channel 9 is not a note
  message (a control change, say) is not classified as percussion.
\<close>

theorem channel_9_non_note_message_not_drum:
  "msg_channel (Other_msg 0 (Some 9)) = Some 9
   \<and> \<not> is_note_msg (Other_msg 0 (Some 9))
   \<and> \<not> is_drum_track [Other_msg 0 (Some 9)]"
  by simp

text \<open>
  C3 (as amended).  For every resolution of at least 4 both slot widths, resolution div 2
  for percussion and resolution div 4 for melodic, are strictly positive, and neither
  encoder nor the document assembly raises a division or index failure.
\<close>

theorem slot_widths_positive_from_four:
  assumes "4 \<le> tpb"
  shows "0 < quantize_ticks tpb True
       \<and> 0 < tpb div 4
       \<and> (\<exists>ds. extract_drum_audicles mid tpb = Inr ds)
       \<and> (\<exists>r. track_to_audicle track tpb = Inr r)
       \<and> (\<exists>doc. main_document (mid\<lparr>ticks_per_beat := tpb\<rparr>) = Inr doc)"
proof -
  from assms have e: "0 < quantize_ticks tpb True"
    by (simp add: quantize_ticks_def)
  from assms have s: "0 < tpb div 4"
    by (simp add: pos_imp_zdiv_pos_iff)
  from e have "\<exists>ds. extract_drum_audicles mid tpb = Inr ds"
    unfolding extract_drum_audicles_def by (rule render_drum_events_total)
  moreover from s have "\<exists>r. track_to_audicle track tpb = Inr r"
    by (simp add: track_to_audicle_total)
  moreover from assms have "\<exists>doc. main_document (mid\<lparr>ticks_per_beat := tpb\<rparr>) = Inr doc"
    by (simp add: main_document_total)
  ultimately show ?thesis using e s by simp
qed

theorem slot_widths_positive_from_four_witness:
  "(4::int) \<le> 4
   \<and> quantize_ticks 4 True = 2 \<and> (4::int) div 4 = 1
   \<and> extract_drum_audicles \<lparr>tracks = [[Note_on 0 9 38 80, Note_on 3 9 38 120]],
                             ticks_per_beat = 4\<rparr> 4 = Inr [''(*| ^|)'']
   \<and> track_to_audicle [Note_on 0 0 60 64, Note_off 2 0 60 0] 4 = Inr (Some ''*C4 -*'')"
proof -
  have h: "(4::int) \<le> 4" by simp
  have w: "quantize_ticks 4 True = 2" by (simp add: quantize_ticks_def)
  have d: "extract_drum_audicles \<lparr>tracks = [[Note_on 0 9 38 80, Note_on 3 9 38 120]],
                             ticks_per_beat = 4\<rparr> 4 = Inr [''(*| ^|)'']"
    by code_simp
  have m: "track_to_audicle [Note_on 0 0 60 64, Note_off 2 0 60 0] 4 = Inr (Some ''*C4 -*'')"
    by code_simp
  show ?thesis
    using slot_widths_positive_from_four [OF h,
        of "\<lparr>tracks = [[Note_on 0 9 38 80, Note_on 3 9 38 120]], ticks_per_beat = 4\<rparr>"
           "[Note_on 0 0 60 64, Note_off 2 0 60 0]"] w d m
    by simp
qed

text \<open>
  The claim as first stated fails: resolutions 1 and 3 are positive, yet the percussion
  width of resolution 1 and the melodic widths of 1 and 3 are zero, and the encoders raise
  \<open>ZeroDivisionError\<close> as soon as there is an event.
\<close>

theorem resolution_below_four_zero_width:
  "(0::int) < 1 \<and> quantize_ticks 1 True = 0
   \<and> extract_drum_audicles \<lparr>tracks = [[Note_on 0 9 38 80]], ticks_per_beat = 1\<rparr> 1
       = Inl ZeroDivisionError
   \<and> track_to_audicle [Note_on 0 0 60 64] 1 = Inl ZeroDivisionError
   \<and> (0::int) < 3 \<and> (3::int) div 4 = 0
   \<and> track_to_audicle [Note_on 0 0 60 64] 3 = Inl ZeroDivisionError"
proof -
  have "extract_drum_audicles \<lparr>tracks = [[Note_on 0 9 38 80]], ticks_per_beat = 1\<rparr> 1
       = Inl ZeroDivisionError"
    by code_simp
  moreover have "track_to_audicle [Note_on 0 0 60 64] 1 = Inl ZeroDivisionError"
    by code_simp
  moreover have "track_to_audicle [Note_on 0 0 60 64] 3 = Inl ZeroDivisionError"
    by code_simp
  ultimately show ?thesis by (simp add: quantize_ticks_def)
qed

text \<open>
  C4 (as amended).  Two melodic tracks that are identical except that a same-tick release
  precedes or follows a same-tick attack of a different pitch always give the same audicle:
  adding one pitch to the held set and discarding another commute.  The order of same-tick
  events shows only for one and the same pitch, as in the last conjunct.
\<close>

theorem same_tick_release_attack_commute:
  assumes "na \<noteq> nb"
  shows "track_to_audicle (pre @ [Note_off dt c1 na v1, Note_on 0 c2 nb v2] @ post) tpb
           = track_to_audicle (pre @ [Note_on dt c2 nb v2, Note_off 0 c1 na v1] @ post) tpb
       \<and> track_to_audicle (pre @ [Note_on dt c1 na 0, Note_on 0 c2 nb v2] @ post) tpb
           = track_to_audicle (pre @ [Note_on dt c2 nb v2, Note_on 0 c1 na 0] @ post) tpb
       \<and> track_to_audicle [Note_off 0 0 60 0, Note_on 0 0 60 64] 480
           \<noteq> track_to_audicle [Note_on 0 0 60 64, Note_off 0 0 60 0] 480"
proof (intro conjI)
  show "track_to_audicle (pre @ [Note_off dt c1 na v1, Note_on 0 c2 nb v2] @ post) tpb
           = track_to_audicle (pre @ [Note_on dt c2 nb v2, Note_off 0 c1 na v1] @ post) tpb"
    by (rule swap_release_attack [OF assms]) simp
  show "track_to_audicle (pre @ [Note_on dt c1 na 0, Note_on 0 c2 nb v2] @ post) tpb
           = track_to_audicle (pre @ [Note_on dt c2 nb v2, Note_on 0 c1 na 0] @ post) tpb"
    by (rule swap_release_attack [OF assms]) simp
  have "track_to_audicle [Note_off 0 0 60 0, Note_on 0 0 60 64] 480 = Inr (Some ''*C4*'')"
    by code_simp
  moreover have "track_to_audicle [Note_on 0 0 60 64, Note_off 0 0 60 0] 480 = Inr None"
    by code_simp
  ultimately show "track_to_audicle [Note_off 0 0 60 0, Note_on 0 0 60 64] 480
           \<noteq> track_to_audicle [Note_on 0 0 60 64, Note_off 0 0 60 0] 480"
    by simp
qed

theorem same_tick_release_attack_commute_witness:
  "(60::nat) \<noteq> 64
   \<and> track_to_audicle [Note_on 0 0 60 64, Note_off 480 0 60 0, Note_on 0 0 64 64] 480
       = Inr (Some ''*C4 - - - E4*'')
   \<and> track_to_audicle [Note_on 0 0 60 64, Note_on 480 0 64 64, Note_off 0 0 60 0] 480
       = Inr (Some ''*C4 - - - E4*'')"
proof -
  have h: "(60::nat) \<noteq> 64" by simp
  have a: "track_to_audicle [Note_on 0 0 60 64, Note_off 480 0 60 0, Note_on 0 0 64 64] 480
       = Inr (Some ''*C4 - - - E4*'')"
    by code_simp
  show ?thesis
    using same_tick_release_attack_commute [OF h,
        where pre = "[Note_on 0 0 60 64]" and dt = 480 and ?c1.0 = 0 and ?v1.0 = 0
          and ?c2.0 = 0 and ?v2.0 = 64 and post = "[]" and tpb = 480] a
    by simp
qed

text \<open>
  The claim as first stated fails: no pair of tracks of the shape it describes renders
  differently, whichever message form the release has; the pair of the specification's
  own example renders the same line.
\<close>

theorem same_tick_order_not_observable:
  "track_to_audicle [Note_on 0 0 60 64, Note_off 480 0 60 0, Note_on 0 0 64 64] 480
     = track_to_audicle [Note_on 0 0 60 64, Note_on 480 0 64 64, Note_off 0 0 60 0] 480
   \<and> \<not> (\<exists>pre post dt c1 c2 na nb v1 v2 tpb.
          na \<noteq> nb
          \<and> track_to_audicle (pre @ [Note_off dt c1 na v1, Note_on 0 c2 nb v2] @ post) tpb
              \<noteq> track_to_audicle (pre @ [Note_on dt c2 nb v2, Note_off 0 c1 na v1] @ post) tpb)
   \<and> \<not> (\<exists>pre post dt c1 c2 na nb v2 tpb.
          na \<noteq> nb
          \<and> track_to_audicle (pre @ [Note_on dt c1 na 0, Note_on 0 c2 nb v2] @ post) tpb
              \<noteq> track_to_audicle (pre @ [Note_on dt c2 nb v2, Note_on 0 c1 na 0] @ post) tpb)"
proof (intro conjI notI)
  have "(60::nat) \<noteq> 64" by simp
  from swap_release_attack [OF this,
      where rel = "Note_off 480 0 60 0" and rel' = "Note_off 0 0 60 0" and dt = 480
        and ?c1.0 = 0 and ?v1.0 = 0 and pre = "[Note_on 0 0 60 64]" and ?c2.0 = 0
        and ?v2.0 = 64 and post = "[]" and tpb = 480]
  show "track_to_audicle [Note_on 0 0 60 64, Note_off 480 0 60 0, Note_on 0 0 64 64] 480
     = track_to_audicle [Note_on 0 0 60 64, Note_on 480 0 64 64, Note_off 0 0 60 0] 480"
    by simp
next
  assume "\<exists>pre post dt c1 c2 na nb v1 v2 tpb.
          na \<noteq> nb
          \<and> track_to_audicle (pre @ [Note_off dt c1 na v1, Note_on 0 c2 nb v2] @ post) tpb
              \<noteq> track_to_audicle (pre @ [Note_on dt c2 nb v2, Note_off 0 c1 na v1] @ post) tpb"
  then obtain pre post dt c1 c2 na nb v1 v2 tpb where
    ne: "na \<noteq> nb" and
    d: "track_to_audicle (pre @ [Note_off dt c1 na v1, Note_on 0 c2 nb v2] @ post) tpb
          \<noteq> track_to_audicle (pre @ [Note_on dt c2 nb v2, Note_off 0 c1 na v1] @ post) tpb"
    by blast
  have "track_to_audicle (pre @ [Note_off dt c1 na v1, Note_on 0 c2 nb v2] @ post) tpb
          = track_to_audicle (pre @ [Note_on dt c2 nb v2, Note_off 0 c1 na v1] @ post) tpb"
    by (rule swap_release_attack [OF ne]) simp
  with d show False by simp
next
  assume "\<exists>pre post dt c1 c2 na nb v2 tpb.
          na \<noteq> nb
          \<and> track_to_audicle (pre @ [Note_on dt c1 na 0, Note_on 0 c2 nb v2] @ post) tpb
              \<noteq> track_to_audicle (pre @ [Note_on dt c2 nb v2, Note_on 0 c1 na 0] @ post) tpb"
  then obtain pre post dt c1 c2 na nb v2 tpb where
    ne: "na \<noteq> nb" and
    d: "track_to_audicle (pre @ [Note_on dt c1 na 0, Note_on 0 c2 nb v2] @ post) tpb
          \<noteq> track_to_audicle (pre @ [Note_on dt c2 nb v2, Note_on 0 c1 na 0] @ post) tpb"
    by blast
  have "track_to_audicle (pre @ [Note_on dt c1 na 0, Note_on 0 c2 nb v2] @ post) tpb
          = track_to_audicle (pre @ [Note_on dt c2 nb v2, Note_on 0 c1 na 0] @ post) tpb"
    by (rule swap_release_attack [OF ne]) simp
  with d show False by simp
qed

text \<open>
  C5.  Whenever at least two audicles survive, the document is, joined by newlines and in
  this order: the header marker line, the opening quote-marker line, every drum audicle in
  ascending order of the pitches that have pooled percussion hits, every melodic audicle in
  the order of the tracks not classified as percussion, and the closing quote-marker line.
\<close>

theorem envelope_line_order:
  assumes "extract_drum_audicles mid (ticks_per_beat mid) = Inr ds"
    and "melodic_audicles (tracks mid) (ticks_per_beat mid) [] = Inr ms"
    and "2 \<le> length ds + length ms"
  shows "main_document mid
           = Inr (join newline ([header_marker, quote_marker] @ ds @ ms @ [quote_marker]))
       \<and> ds = List.map_filter
                (drum_line (collect_drum_events (tracks mid) []) (ticks_per_beat mid))
                (sorted_list_of_set (fst ` set (collect_drum_events (tracks mid) [])))
       \<and> fst ` set (collect_drum_events (tracks mid) [])
           = {n. \<exists>tr \<in> set (tracks mid). \<exists>dt v. Note_on dt 9 n v \<in> set tr \<and> 0 < v}
       \<and> ms = List.map_filter (melodic_line (ticks_per_beat mid))
                (filter (\<lambda>tr. \<not> is_drum_track tr) (tracks mid))"
proof (intro conjI)
  from assms show "main_document mid
           = Inr (join newline ([header_marker, quote_marker] @ ds @ ms @ [quote_marker]))"
    by (simp only: main_document_def Let_def sum.case assemble_envelope)
  have "distinct (map fst (collect_drum_events (tracks mid) []))"
    by (rule distinct_collect_drum_events) simp
  with render_drum_events_Inr [OF assms(1) [unfolded extract_drum_audicles_def]]
  show "ds = List.map_filter
                (drum_line (collect_drum_events (tracks mid) []) (ticks_per_beat mid))
                (sorted_list_of_set (fst ` set (collect_drum_events (tracks mid) [])))"
    by (simp add: sort_keys)
  show "fst ` set (collect_drum_events (tracks mid) [])
           = {n. \<exists>tr \<in> set (tracks mid). \<exists>dt v. Note_on dt 9 n v \<in> set tr \<and> 0 < v}"
    by (simp add: keys_collect_drum_events)
  from melodic_audicles_Inr [OF assms(2)]
  show "ms = List.map_filter (melodic_line (ticks_per_beat mid))
                (filter (\<lambda>tr. \<not> is_drum_track tr) (tracks mid))"
    by simp
qed

theorem envelope_line_order_witness:
  "extract_drum_audicles
     \<lparr>tracks = [[Note_on 0 0 60 64, Note_off 480 0 60 0],
                [Note_on 0 9 38 80, Note_on 0 9 36 120],
                [Note_on 0 1 69 64, Note_off 120 1 69 0]], ticks_per_beat = 480\<rparr> 480
     = Inr [''(^|)'', ''(*|)'']
   \<and> melodic_audicles
       [[Note_on 0 0 60 64, Note_off 480 0 60 0],
        [Note_on 0 9 38 80, Note_on 0 9 36 120],
        [Note_on 0 1 69 64, Note_off 120 1 69 0]] 480 []
     = Inr [''*C4 - - -*'', ''*A4*'']
   \<and> 2 \<le> length [''(^|)'', ''(*|)''] + length [''*C4 - - -*'', ''*A4*'']
   \<and> main_document
       \<lparr>tracks = [[Note_on 0 0 60 64, Note_off 480 0 60 0],
                  [Note_on 0 9 38 80, Note_on 0 9 36 120],
                  [Note_on 0 1 69 64, Note_off 120 1 69 0]], ticks_per_beat = 480\<rparr>
     = Inr (join newline [header_marker, quote_marker, ''(^|)'', ''(*|)'',
                          ''*C4 - - -*'', ''*A4*'', quote_marker])"
proof -
  let ?mid = "\<lparr>tracks = [[Note_on 0 0 60 64, Note_off 480 0 60 0],
                [Note_on 0 9 38 80, Note_on 0 9 36 120],
                [Note_on 0 1 69 64, Note_off 120 1 69 0]], ticks_per_beat = 480\<rparr>"
  have h1: "extract_drum_audicles ?mid (ticks_per_beat ?mid) = Inr [''(^|)'', ''(*|)'']"
    by code_simp
  have h2: "melodic_audicles (tracks ?mid) (ticks_per_beat ?mid) []
              = Inr [''*C4 - - -*'', ''*A4*'']"
    by code_simp
  have h3: "2 \<le> length [''(^|)'', ''(*|)''] + length [''*C4 - - -*'', ''*A4*'']"
    by simp
  have m: "main_document ?mid
             = Inr (join newline ([header_marker, quote_marker] @ [''(^|)'', ''(*|)'']
                      @ [''*C4 - - -*'', ''*A4*''] @ [quote_marker]))"
    using envelope_line_order [OF h1 h2 h3] by (rule conjunct1)
  from m h1 h2 show ?thesis
    by simp
qed

text \<open>
  C6.  A track with one attack of pitch 60 at tick 0 and its release at tick 480, whichever
  of the two release forms and whatever the channels, gives exactly \<open>*C4 - - -*\<close> under
  resolution 480.  In general slot \<open>i\<close> of a timeline renders \<open>.\<close> when its held set is
  empty, \<open>-\<close> when the set is non-empty and equal to the set of the slot before (the empty
  set before the first slot), and otherwise the names of its pitches in ascending order
  joined by \<open>~\<close>.  Every held set the sweep produces is finite, so that its sorted list
  holds exactly its pitches, in ascending order.
\<close>

theorem sustain_compression:
  "(0 < v \<longrightarrow>
      track_to_audicle [Note_on 0 c 60 v, Note_off 480 c' 60 v'] 480
        = Inr (Some ''*C4 - - -*'')
      \<and> track_to_audicle [Note_on 0 c 60 v, Note_on 480 c' 60 0] 480
        = Inr (Some ''*C4 - - -*''))
   \<and> length (melodic_tokens {} timeline) = length timeline
   \<and> (i < length timeline \<longrightarrow>
        melodic_tokens {} timeline ! i =
          (let slot = timeline ! i;
               before = (if i = 0 then {} else timeline ! (i - 1))
           in if slot = {} then ''.''
              else if slot = before then ''-''
              else join ''~'' (map midi_note_to_mida (sorted_list_of_set slot))))
   \<and> (held \<in> set (sweep s slots evs {}) \<longrightarrow>
        finite held \<and> sorted (sorted_list_of_set held)
        \<and> distinct (sorted_list_of_set held) \<and> set (sorted_list_of_set held) = held)"
proof (intro conjI impI)
  assume "held \<in> set (sweep s slots evs {})"
  with finite_sweep [of "{}" held s slots evs] show f: "finite held" by simp
  then show "sorted (sorted_list_of_set held)" by simp
  from f show "distinct (sorted_list_of_set held)" by simp
  from f show "set (sorted_list_of_set held) = held" by simp
next
  assume "0 < v"
  then show "track_to_audicle [Note_on 0 c 60 v, Note_off 480 c' 60 v'] 480
        = Inr (Some ''*C4 - - -*'')"
    by (simp add: track_to_audicle_def Let_def max_tick_def slot_count_of_def
        render_melodic_timeline_def trim_trailing_def midi_note_to_mida_def note_names_def
        int_str_def nat_digits.simps upt_rec)
next
  assume "0 < v"
  then show "track_to_audicle [Note_on 0 c 60 v, Note_on 480 c' 60 0] 480
        = Inr (Some ''*C4 - - -*'')"
    by (simp add: track_to_audicle_def Let_def max_tick_def slot_count_of_def
        render_melodic_timeline_def trim_trailing_def midi_note_to_mida_def note_names_def
        int_str_def nat_digits.simps upt_rec)
next
  show "length (melodic_tokens {} timeline) = length timeline"
    by (rule length_melodic_tokens)
next
  assume "i < length timeline"
  then show "melodic_tokens {} timeline ! i =
          (let slot = timeline ! i;
               before = (if i = 0 then {} else timeline ! (i - 1))
           in if slot = {} then ''.''
              else if slot = before then ''-''
              else join ''~'' (map midi_note_to_mida (sorted_list_of_set slot)))"
    by (rule melodic_tokens_nth)
qed

theorem sustain_compression_witness:
  "(0::nat) < 64
   \<and> track_to_audicle [Note_on 0 0 60 64, Note_off 480 0 60 0] 480 = Inr (Some ''*C4 - - -*'')
   \<and> (2::nat) < length [{60::nat, 64}, {60, 64}, {}, {67}]
   \<and> melodic_tokens {} [{60, 64}, {60, 64}, {}, {67}] ! 2 = ''.''
   \<and> (1::nat) < length [{60::nat, 64}, {60, 64}, {}, {67}]
   \<and> melodic_tokens {} [{60, 64}, {60, 64}, {}, {67}] ! 1 = ''-''
   \<and> (0::nat) < length [{60::nat, 64}, {60, 64}, {}, {67}]
   \<and> melodic_tokens {} [{60, 64}, {60, 64}, {}, {67}] ! 0 = ''C4~E4''
   \<and> {60::nat, 64} \<in> set (sweep 120 [0, 1] [(0, 60, On), (0, 64, On)] {})
   \<and> sorted_list_of_set {60::nat, 64} = [60, 64]"
proof -
  have h: "{60::nat, 64} \<in> set (sweep 120 [0, 1] [(0, 60, On), (0, 64, On)] {})"
    by (simp add: Let_def insert_commute)
  have n: "midi_note_to_mida 60 = ''C4''" "midi_note_to_mida 64 = ''E4''"
    by code_simp+
  have s: "sorted_list_of_set {60::nat, 64} = [60, 64]"
    by code_simp
  show ?thesis
    using sustain_compression
        [where v = 64 and c = 0 and c' = 0 and v' = 0
           and timeline = "[{60, 64}, {60, 64}, {}, {67}]" and i = 2
           and held = "{60, 64}" and s = 120 and slots = "[0, 1]"
           and evs = "[(0, 60, On), (0, 64, On)]"]
      sustain_compression [where v = 64 and timeline = "[{60, 64}, {60, 64}, {}, {67}]" and i = 1]
      sustain_compression [where v = 64 and timeline = "[{60, 64}, {60, 64}, {}, {67}]" and i = 0]
      h
    by (simp add: n s)
qed



text \<open>
  C8.  The transformation is a function of the parsed input: equal inputs give the same
  document.  The percussion lines do not depend on the order in which the pitches entered
  the dictionary: two dictionaries with the same entries give the same audicles, and the
  audicles are emitted for the pitches in ascending numeric order.  The dictionary the
  encoder pools never holds a pitch twice.
\<close>

theorem document_deterministic:
  "(mid1 = mid2 \<longrightarrow> main_document mid1 = main_document mid2)
   \<and> (distinct (map fst d1) \<and> distinct (map fst d2) \<and> set d1 = set d2
        \<longrightarrow> render_drum_events d1 tpb = render_drum_events d2 tpb)
   \<and> distinct (map fst (collect_drum_events (tracks mid) []))
   \<and> (extract_drum_audicles mid tpb = Inr ds
        \<longrightarrow> ds = List.map_filter (drum_line (collect_drum_events (tracks mid) []) tpb)
                   (sorted_list_of_set (fst ` set (collect_drum_events (tracks mid) []))))"
proof (intro conjI impI)
  assume "mid1 = mid2"
  then show "main_document mid1 = main_document mid2" by simp
next
  assume a: "distinct (map fst d1) \<and> distinct (map fst d2) \<and> set d1 = set d2"
  then have "map_of d1 = map_of d2" by (simp add: map_of_inject_set)
  with a show "render_drum_events d1 tpb = render_drum_events d2 tpb"
    by (simp add: render_drum_events_order_independent)
next
  show dist: "distinct (map fst (collect_drum_events (tracks mid) []))"
    by (rule distinct_collect_drum_events) simp
  assume "extract_drum_audicles mid tpb = Inr ds"
  from render_drum_events_Inr [OF this [unfolded extract_drum_audicles_def]] dist
  show "ds = List.map_filter (drum_line (collect_drum_events (tracks mid) []) tpb)
                   (sorted_list_of_set (fst ` set (collect_drum_events (tracks mid) [])))"
    by (simp add: sort_keys)
qed

theorem document_deterministic_witness:
  "distinct (map fst [(38::nat, [(0::nat, 80::nat)]), (36, [(0, 120)])])
   \<and> distinct (map fst [(36::nat, [(0::nat, 120::nat)]), (38, [(0, 80)])])
   \<and> set [(38::nat, [(0::nat, 80::nat)]), (36, [(0, 120)])]
       = set [(36, [(0, 120)]), (38, [(0, 80)])]
   \<and> render_drum_events [(38, [(0, 80)]), (36, [(0, 120)])] 480 = Inr [''(^|)'', ''(*|)'']
   \<and> render_drum_events [(36, [(0, 120)]), (38, [(0, 80)])] 480 = Inr [''(^|)'', ''(*|)'']
   \<and> extract_drum_audicles
       \<lparr>tracks = [[Note_on 0 9 38 80, Note_on 0 9 36 120]], ticks_per_beat = 480\<rparr> 480
       = Inr [''(^|)'', ''(*|)'']
   \<and> List.map_filter
        (drum_line (collect_drum_events [[Note_on 0 9 38 80, Note_on 0 9 36 120]] []) 480)
        (sorted_list_of_set
           (fst ` set (collect_drum_events [[Note_on 0 9 38 80, Note_on 0 9 36 120]] [])))
       = [''(^|)'', ''(*|)'']
   \<and> main_document \<lparr>tracks = [[Note_on 0 9 38 80, Note_on 0 9 36 120]], ticks_per_beat = 480\<rparr>
       = main_document \<lparr>tracks = [[Note_on 0 9 38 80, Note_on 0 9 36 120]], ticks_per_beat = 480\<rparr>"
proof -
  let ?mid = "\<lparr>tracks = [[Note_on 0 9 38 80, Note_on 0 9 36 120]], ticks_per_beat = 480\<rparr>"
  have s: "set [(38::nat, [(0::nat, 80::nat)]), (36, [(0, 120)])]
             = set [(36, [(0, 120)]), (38, [(0, 80)])]"
    by auto
  have r: "render_drum_events [(38, [(0, 80)]), (36, [(0, 120)])] 480 = Inr [''(^|)'', ''(*|)'']"
    by code_simp
  have x: "extract_drum_audicles ?mid 480 = Inr [''(^|)'', ''(*|)'']"
    by code_simp
  have eq: "render_drum_events [(38, [(0, 80)]), (36, [(0, 120)])] 480
              = render_drum_events [(36, [(0, 120)]), (38, [(0, 80)])] 480"
    using document_deterministic
      [where ?d1.0 = "[(38, [(0, 80)]), (36, [(0, 120)])]"
         and ?d2.0 = "[(36, [(0, 120)]), (38, [(0, 80)])]" and tpb = 480,
       THEN conjunct2, THEN conjunct1] s
    by simp
  have o: "List.map_filter
        (drum_line (collect_drum_events [[Note_on 0 9 38 80, Note_on 0 9 36 120]] []) 480)
        (sorted_list_of_set
           (fst ` set (collect_drum_events [[Note_on 0 9 38 80, Note_on 0 9 36 120]] [])))
       = [''(^|)'', ''(*|)'']"
    using document_deterministic
      [where mid = ?mid and tpb = 480 and ds = "[''(^|)'', ''(*|)'']",
       THEN conjunct2, THEN conjunct2, THEN conjunct2] x
    by simp
  from eq r x s o show ?thesis
    by simp
qed

text \<open>
  C9.  \<open>velocity_to_typeset\<close> returns the accented token \<open>^|\<close> for every velocity of at
  least 110, the soft token \<open>v|\<close> for every velocity of at most 40 and the normal token
  \<open>*|\<close> otherwise; 109 and 41 are normal, 110 is accented and 40 is soft.
\<close>

theorem velocity_to_typeset_thresholds:
  "(110 \<le> v \<longrightarrow> velocity_to_typeset v = ''^|'')
   \<and> (v \<le> 40 \<longrightarrow> velocity_to_typeset v = ''v|'')
   \<and> (40 < v \<and> v < 110 \<longrightarrow> velocity_to_typeset v = ''*|'')
   \<and> velocity_to_typeset 109 = ''*|''
   \<and> velocity_to_typeset 41 = ''*|''
   \<and> velocity_to_typeset 110 = ''^|''
   \<and> velocity_to_typeset 40 = ''v|''"
  by (simp add: velocity_to_typeset_def)

theorem velocity_to_typeset_thresholds_witness:
  "(110::nat) \<le> 127 \<and> velocity_to_typeset 127 = ''^|''
   \<and> (0::nat) \<le> 40 \<and> velocity_to_typeset 0 = ''v|''
   \<and> (40::nat) < 80 \<and> (80::nat) < 110 \<and> velocity_to_typeset 80 = ''*|''"
  using velocity_to_typeset_thresholds [of 127] velocity_to_typeset_thresholds [of 0]
    velocity_to_typeset_thresholds [of 80]
  by simp

text \<open>
  C10.  In \<open>track_to_audicle\<close> a release (a \<open>note_off\<close>, or a \<open>note_on\<close> of velocity zero)
  of a pitch that is not held leaves the held set as it is, and the sweep goes on with the
  next event.  No event stream makes the encoder fail: it returns whenever the sixteenth
  width is not zero, and its only failure is the division by a zero width.
\<close>

theorem unmatched_release_ignored:
  "(pitch \<notin> active \<longrightarrow> apply_event (tick, pitch, Off) active = active)
   \<and> collect_events [Note_off dt c pitch v] t = [(t + dt, pitch, Off)]
   \<and> collect_events [Note_on dt c pitch 0] t = [(t + dt, pitch, Off)]
   \<and> (pitch \<notin> active \<and> int tick < slot_end \<longrightarrow>
        consume slot_end ((tick, pitch, Off) # evs) active = consume slot_end evs active)
   \<and> (tpb div 4 \<noteq> 0 \<longrightarrow> (\<exists>r. track_to_audicle track tpb = Inr r))
   \<and> (track_to_audicle track tpb' = Inl err \<longrightarrow> err = ZeroDivisionError \<and> tpb' div 4 = 0)"
proof (intro conjI impI)
  assume "pitch \<notin> active"
  then show "apply_event (tick, pitch, Off) active = active" by simp
next
  show "collect_events [Note_off dt c pitch v] t = [(t + dt, pitch, Off)]"
    by (simp add: Let_def)
  show "collect_events [Note_on dt c pitch 0] t = [(t + dt, pitch, Off)]"
    by (simp add: Let_def)
next
  assume "pitch \<notin> active \<and> int tick < slot_end"
  then show "consume slot_end ((tick, pitch, Off) # evs) active = consume slot_end evs active"
    by simp
next
  assume "tpb div 4 \<noteq> 0"
  then show "\<exists>r. track_to_audicle track tpb = Inr r"
    by (rule track_to_audicle_total)
next
  assume a: "track_to_audicle track tpb' = Inl err"
  then show "err = ZeroDivisionError"
    by (auto simp: track_to_audicle_def slot_count_of_def Let_def split: if_splits)
  from a show "tpb' div 4 = 0"
    by (auto simp: track_to_audicle_def slot_count_of_def Let_def split: if_splits)
qed

theorem unmatched_release_ignored_witness:
  "(60::nat) \<notin> {62}
   \<and> apply_event (0, 60, Off) {62} = {62}
   \<and> int 0 < 120
   \<and> consume 120 [(0, 60, Off)] {62} = ([], {62})
   \<and> (480::int) div 4 \<noteq> 0
   \<and> track_to_audicle [Note_off 0 0 60 0, Note_on 0 0 62 64] 480 = Inr (Some ''*D4*'')
   \<and> track_to_audicle [Note_off 0 0 60 0, Note_on 0 0 62 64] 3 = Inl ZeroDivisionError
   \<and> (3::int) div 4 = 0"
proof -
  have a: "track_to_audicle [Note_off 0 0 60 0, Note_on 0 0 62 64] 480 = Inr (Some ''*D4*'')"
    by code_simp
  have b: "track_to_audicle [Note_off 0 0 60 0, Note_on 0 0 62 64] 3 = Inl ZeroDivisionError"
    by code_simp
  show ?thesis
    using unmatched_release_ignored
      [where pitch = 60 and active = "{62}" and tick = 0 and slot_end = 120 and evs = "[]"
         and tpb = 480 and track = "[Note_off 0 0 60 0, Note_on 0 0 62 64]" and tpb' = 3
         and err = ZeroDivisionError]
      a b
    by simp
qed

end
